theory Spec2Isabelle
  imports Main
begin

section \<open>Strings\<close>

text \<open>
  Python strings are modelled as \<^typ>\<open>string\<close>. The case mappings and the character
  classes below are Python's on ASCII text (code points below 128); any other character is
  taken to be caseless, not white space and not a word character.
\<close>

definition ascii_uppercase :: string where
  "ascii_uppercase = ''ABCDEFGHIJKLMNOPQRSTUVWXYZ''"

definition ascii_lowercase :: string where
  "ascii_lowercase = ''abcdefghijklmnopqrstuvwxyz''"

definition digits :: string where
  "digits = ''0123456789''"

definition is_upper :: "char \<Rightarrow> bool" where
  "is_upper c = (c \<in> set ascii_uppercase)"

definition is_lower :: "char \<Rightarrow> bool" where
  "is_lower c = (c \<in> set ascii_lowercase)"

definition lower_char :: "char \<Rightarrow> char" where
  "lower_char c = (case map_of (zip ascii_uppercase ascii_lowercase) c of
                     Some d \<Rightarrow> d | None \<Rightarrow> c)"

definition upper_char :: "char \<Rightarrow> char" where
  "upper_char c = (case map_of (zip ascii_lowercase ascii_uppercase) c of
                     Some d \<Rightarrow> d | None \<Rightarrow> c)"

text \<open>\<^verbatim>\<open>str.isspace\<close> on ASCII: tab, line feed, vertical tab, form feed, carriage
  return, the four separators 0x1C to 0x1F, and the space. The regular expression class
  \<^verbatim>\<open>\s\<close> of a \<^verbatim>\<open>str\<close> pattern is the same set.\<close>

definition whitespace :: string where
  "whitespace = [CHR 0x09, CHR 0x0A, CHR 0x0B, CHR 0x0C, CHR 0x0D,
                 CHR 0x1C, CHR 0x1D, CHR 0x1E, CHR 0x1F, CHR 0x20]"

definition is_space :: "char \<Rightarrow> bool" where
  "is_space c = (c \<in> set whitespace)"

text \<open>The class \<^verbatim>\<open>\w\<close>: letters, digits and the underscore.\<close>

definition is_word :: "char \<Rightarrow> bool" where
  "is_word c = (c \<in> set (ascii_lowercase @ ascii_uppercase @ digits @ ''_''))"

text \<open>\<^verbatim>\<open>str.lower\<close>, \<^verbatim>\<open>str.upper\<close>.\<close>

definition str_lower :: "string \<Rightarrow> string" where
  "str_lower s = map lower_char s"

definition str_upper :: "string \<Rightarrow> string" where
  "str_upper s = map upper_char s"

text \<open>\<^verbatim>\<open>str.title\<close>: a cased character is upper-cased when the character before it is
  not cased, lower-cased otherwise; the flag is whether the previous character was cased.\<close>

fun str_title_from :: "bool \<Rightarrow> string \<Rightarrow> string" where
  "str_title_from prev [] = []"
| "str_title_from prev (c # cs) =
     (if is_lower c then (if prev then c else upper_char c) # str_title_from True cs
      else if is_upper c then (if prev then lower_char c else c) # str_title_from True cs
      else c # str_title_from False cs)"

definition str_title :: "string \<Rightarrow> string" where
  "str_title s = str_title_from False s"

text \<open>\<^verbatim>\<open>str.strip()\<close>: white space removed at both ends.\<close>

definition str_lstrip :: "string \<Rightarrow> string" where
  "str_lstrip s = dropWhile is_space s"

definition str_rstrip :: "string \<Rightarrow> string" where
  "str_rstrip s = rev (dropWhile is_space (rev s))"

definition str_strip :: "string \<Rightarrow> string" where
  "str_strip s = str_rstrip (str_lstrip s)"

text \<open>\<^verbatim>\<open>s.startswith(p)\<close>.\<close>

definition str_startswith :: "string \<Rightarrow> string \<Rightarrow> bool" where
  "str_startswith s p = (take (length p) s = p)"

text \<open>\<^verbatim>\<open>s.replace(old, new)\<close> for a non-empty \<^verbatim>\<open>old\<close>: the occurrences of
  \<^verbatim>\<open>old\<close> are found from the left, without overlap, and each is replaced.\<close>

function str_replace :: "string \<Rightarrow> string \<Rightarrow> string \<Rightarrow> string" where
  "str_replace old new [] = []"
| "str_replace old new (c # cs) =
     (if old \<noteq> [] \<and> str_startswith (c # cs) old
      then new @ str_replace old new (drop (length old) (c # cs))
      else c # str_replace old new cs)"
  by pat_completeness auto
termination
  by (relation "measure (\<lambda>(old, new, s). length s)") (auto simp: neq_Nil_conv)

text \<open>\<^verbatim>\<open>s or ''\<close> for a value that is a string or \<^verbatim>\<open>None\<close>.\<close>

definition or_empty :: "string option \<Rightarrow> string" where
  "or_empty s = (case s of None \<Rightarrow> [] | Some t \<Rightarrow> t)"

section \<open>Text normalizer\<close>

definition ORIGINAL_MIX_PATTERNS :: "string list" where
  "ORIGINAL_MIX_PATTERNS = [''(original mix)'', ''original mix'', ''(orig mix)'', ''orig mix'']"

text \<open>One round of the loop of \<^verbatim>\<open>strip_mix_annotations\<close>: the pattern, its title-cased
  form and its upper-cased form are deleted, in this order.\<close>

definition strip_mix_step :: "string \<Rightarrow> string \<Rightarrow> string" where
  "strip_mix_step t pat =
     str_replace (str_upper pat) [] (str_replace (str_title pat) [] (str_replace pat [] t))"

definition strip_mix_annotations :: "string option \<Rightarrow> string" where
  "strip_mix_annotations s = str_strip (foldl strip_mix_step (or_empty s) ORIGINAL_MIX_PATTERNS)"

text \<open>
  The six regular expressions of \<^verbatim>\<open>FEAT_PATTERNS\<close> have three shapes, each with the key
  word \<^verbatim>\<open>ft\<close> or \<^verbatim>\<open>feat\<close>:
  \<^item> \<^verbatim>\<open>\(kw\.?.*?\)\<close>: an opening parenthesis, the key word, and the shortest run of
    characters other than a line feed that ends at a closing parenthesis;
  \<^item> \<^verbatim>\<open>,\s*kw\.?.*$\<close>: a comma, any white space, the key word, and the rest of the string;
  \<^item> \<^verbatim>\<open>\s+kw\.?.*$\<close>: white space, the key word, and the rest of the string.
  The dot matches every character but the line feed, so \<^verbatim>\<open>\.?.*\<close> matches what
  \<^verbatim>\<open>.*\<close> matches; without \<^verbatim>\<open>re.MULTILINE\<close> the anchor \<^verbatim>\<open>$\<close> holds at the end of the
  string and before a line feed that is the last character. The key word is matched
  ignoring case (\<^verbatim>\<open>re.IGNORECASE\<close>).
\<close>

datatype feat_pattern = Paren string | Comma string | Space string

definition FEAT_PATTERNS :: "feat_pattern list" where
  "FEAT_PATTERNS = [Paren ''ft'', Paren ''feat'', Comma ''ft'', Comma ''feat'',
                    Space ''ft'', Space ''feat'']"

definition startswith_ci :: "string \<Rightarrow> string \<Rightarrow> bool" where
  "startswith_ci s kw = (str_lower (take (length kw) s) = kw)"

text \<open>\<^verbatim>\<open>.*?\)\<close> at the start of \<open>s\<close>: the number of characters matched.\<close>

definition lazy_to_paren :: "string \<Rightarrow> nat option" where
  "lazy_to_paren s =
     (let seg = takeWhile (\<lambda>c. c \<noteq> CHR '')'' \<and> c \<noteq> CHR 0x0A) s in
      if str_startswith (drop (length seg) s) '')'' then Some (Suc (length seg)) else None)"

text \<open>\<^verbatim>\<open>.*$\<close> at the start of \<open>s\<close>: the number of characters matched.\<close>

definition greedy_to_end :: "string \<Rightarrow> nat option" where
  "greedy_to_end s =
     (let seg = takeWhile (\<lambda>c. c \<noteq> CHR 0x0A) s; rest = drop (length seg) s in
      if rest = [] \<or> rest = [CHR 0x0A] then Some (length seg) else None)"

text \<open>The key word and the rest of the string, after the white space of the two trailing
  shapes; \<open>n\<close> is the number of characters matched before the key word.\<close>

definition kw_to_end :: "string \<Rightarrow> nat \<Rightarrow> string \<Rightarrow> nat option" where
  "kw_to_end kw n s =
     (if startswith_ci s kw
      then map_option (\<lambda>m. n + length kw + m) (greedy_to_end (drop (length kw) s))
      else None)"

text \<open>A match of a pattern at the start of \<open>s\<close>: its length, or \<open>None\<close>.\<close>

fun match_here :: "feat_pattern \<Rightarrow> string \<Rightarrow> nat option" where
  "match_here (Paren kw) s =
     (if str_startswith s ''('' \<and> startswith_ci (drop 1 s) kw
      then map_option (\<lambda>m. 1 + length kw + m) (lazy_to_paren (drop (1 + length kw) s))
      else None)"
| "match_here (Comma kw) s =
     (if str_startswith s '',''
      then (let ws = takeWhile is_space (drop 1 s)
            in kw_to_end kw (1 + length ws) (drop (1 + length ws) s))
      else None)"
| "match_here (Space kw) s =
     (let ws = takeWhile is_space s in
      if ws \<noteq> [] then kw_to_end kw (length ws) (drop (length ws) s) else None)"

text \<open>\<^verbatim>\<open>re.sub(pat, '', t, flags=re.IGNORECASE)\<close>: the string is scanned from the left;
  where the pattern matches, the match is deleted and the scan goes on after it. None of
  the six patterns matches the empty string: a match at \<open>c # cs\<close> has a length \<open>n\<close> of
  at least 1, and what follows it is \<open>drop (n - 1) cs\<close>.\<close>

function re_sub :: "feat_pattern \<Rightarrow> string \<Rightarrow> string" where
  "re_sub pat [] = []"
| "re_sub pat (c # cs) =
     (case match_here pat (c # cs) of
        Some n \<Rightarrow> re_sub pat (drop (n - 1) cs)
      | None \<Rightarrow> c # re_sub pat cs)"
  by pat_completeness auto
termination
  by (relation "measure (\<lambda>(pat, s). length s)") auto

definition strip_features :: "string option \<Rightarrow> string" where
  "strip_features s = str_strip (foldl (\<lambda>t pat. re_sub pat t) (or_empty s) FEAT_PATTERNS)"

definition norm :: "string option \<Rightarrow> string" where
  "norm s =
     str_strip (strip_features (Some (strip_mix_annotations (Some (str_lower (or_empty s))))))"

section \<open>Artist tokenizer\<close>

text \<open>
  \<^verbatim>\<open>re.split(r'[,&/;]|\band\b', s, flags=re.IGNORECASE)\<close>. The scan carries the
  character before the current position (for the word boundary before \<^verbatim>\<open>and\<close>) and
  the piece read so far. At each position the first alternative is tried first. A word
  boundary before \<^verbatim>\<open>and\<close> means that no word character comes before it, one after it
  that none follows. After a match of \<^verbatim>\<open>and\<close> at \<open>c # cs\<close> the scan goes on at
  \<open>drop 2 cs\<close>, and the character before that position is the third of the match.
\<close>

definition separators :: string where
  "separators = '',&/;''"

definition and_here :: "char option \<Rightarrow> string \<Rightarrow> bool" where
  "and_here prev s =
     ((case prev of None \<Rightarrow> True | Some p \<Rightarrow> \<not> is_word p) \<and>
      startswith_ci s ''and'' \<and>
      (case drop 3 s of [] \<Rightarrow> True | n # _ \<Rightarrow> \<not> is_word n))"

function re_split :: "char option \<Rightarrow> string \<Rightarrow> string \<Rightarrow> string list" where
  "re_split prev piece [] = [piece]"
| "re_split prev piece (c # cs) =
     (if c \<in> set separators then piece # re_split (Some c) [] cs
      else if and_here prev (c # cs)
      then piece # re_split (Some (last (take 3 (c # cs)))) [] (drop 2 cs)
      else re_split (Some c) (piece @ [c]) cs)"
  by pat_completeness auto
termination
  by (relation "measure (\<lambda>(prev, piece, s). length s)") auto

definition split_artists :: "string \<Rightarrow> string list" where
  "split_artists s = map str_strip (filter (\<lambda>p. str_strip p \<noteq> []) (re_split None [] s))"

text \<open>The call sites of the scanners: an empty query artist is not split and gives the list
  of the empty string; a database artist with no token gives the list of the empty
  string.\<close>

definition input_artists :: "string \<Rightarrow> string list" where
  "input_artists artist = (if artist \<noteq> [] then split_artists artist else [[]])"

definition db_artists :: "string \<Rightarrow> string list" where
  "db_artists a_val = (case split_artists a_val of [] \<Rightarrow> [[]] | ts \<Rightarrow> ts)"

section \<open>Hits and their order\<close>

text \<open>
  The similarity function (\<^verbatim>\<open>fuzz.token_set_ratio\<close>) is a parameter \<open>sc\<close> of the
  scanners. Its values are only compared with each other, with the threshold and with
  \<open>0\<close>, so a score is a value of any linear order with a zero.
\<close>

record 's hit =
  score :: 's
  item :: string

record 's fs_hit = "'s hit" +
  path :: string

text \<open>\<^verbatim>\<open>sorted(results, key=..., reverse=True)\<close>: the list is reversed, sorted by a
  stable sort on the key, and reversed again.\<close>

definition py_sorted_rev :: "('a \<Rightarrow> 's::linorder) \<Rightarrow> 'a list \<Rightarrow> 'a list" where
  "py_sorted_rev key xs = rev (sort_key key (rev xs))"

section \<open>Database scanner\<close>

text \<open>An attribute of a record object is absent, \<^verbatim>\<open>None\<close>, or has a value.\<close>

datatype 'a attr = Missing | PyNone | Val 'a

record artist_obj =
  Name :: "string attr"

record content =
  Title :: "string attr"
  Artist :: "artist_obj attr"

text \<open>\<^verbatim>\<open>getattr(obj, name, default)\<close>; \<open>None\<close> stands for Python's \<^verbatim>\<open>None\<close>.\<close>

definition getattr :: "'a attr \<Rightarrow> 'a option \<Rightarrow> 'a option" where
  "getattr a dflt = (case a of Missing \<Rightarrow> dflt | PyNone \<Rightarrow> None | Val v \<Rightarrow> Some v)"

text \<open>A value in an f-string.\<close>

definition format_str :: "string option \<Rightarrow> string" where
  "format_str v = (case v of None \<Rightarrow> ''None'' | Some s \<Rightarrow> s)"

definition raw_title :: "content \<Rightarrow> string" where
  "raw_title c = or_empty (getattr (Title c) (Some []))"

text \<open>An artist object is true in a condition; \<^verbatim>\<open>None\<close> is false.\<close>

definition raw_artist :: "content \<Rightarrow> string option" where
  "raw_artist c =
     (case getattr (Artist c) None of
        Some raw_artist_obj \<Rightarrow> getattr (Name raw_artist_obj) (Some [])
      | None \<Rightarrow> Some [])"

definition rb_best_score ::
  "(string \<Rightarrow> string \<Rightarrow> 's::{linorder,zero}) \<Rightarrow> string \<Rightarrow> string \<Rightarrow> string \<Rightarrow> string list \<Rightarrow> 's"
where
  "rb_best_score sc title artist t_val db_as =
     (if title \<noteq> [] \<and> artist \<noteq> [] then
        foldl (\<lambda>best in_a.
                 foldl (\<lambda>best db_a.
                          max best (sc (title @ ''::'' @ in_a) (t_val @ ''::'' @ db_a)))
                       best db_as)
              0 (input_artists artist)
      else if title \<noteq> [] then sc title t_val
      else if artist \<noteq> [] then
        foldl (\<lambda>best in_a. foldl (\<lambda>best db_a. max best (sc in_a db_a)) best db_as)
              0 (input_artists artist)
      else 0)"

definition rb_step ::
  "(string \<Rightarrow> string \<Rightarrow> 's::{linorder,zero}) \<Rightarrow> string \<Rightarrow> string \<Rightarrow> 's \<Rightarrow>
     's hit list \<Rightarrow> content \<Rightarrow> 's hit list"
where
  "rb_step sc title artist score_cut results c =
     (let t_val = norm (Some (raw_title c));
          a_val = norm (raw_artist c);
          best_score = rb_best_score sc title artist t_val (db_artists a_val)
      in if score_cut \<le> best_score
         then results @ [\<lparr>score = best_score,
                          item = format_str (raw_artist c) @ '' - '' @ raw_title c\<rparr>]
         else results)"

definition rb_results ::
  "(string \<Rightarrow> string \<Rightarrow> 's::{linorder,zero}) \<Rightarrow> content list \<Rightarrow> string \<Rightarrow> string \<Rightarrow> 's \<Rightarrow>
     's hit list"
where
  "rb_results sc contents title artist score_cut =
     foldl (rb_step sc title artist score_cut) [] contents"

definition scan_rekordbox ::
  "(string \<Rightarrow> string \<Rightarrow> 's::{linorder,zero}) \<Rightarrow> content list \<Rightarrow> string \<Rightarrow> string \<Rightarrow> 's \<Rightarrow>
     's hit list"
where
  "scan_rekordbox sc contents title artist score_cut =
     py_sorted_rev score (rb_results sc contents title artist score_cut)"

section \<open>Filesystem scanner\<close>

text \<open>
  The tree under the scan root. A node has a name and the canonical absolute path that
  \<^verbatim>\<open>Path.resolve\<close> gives for it; a directory lists its entries in the order in which
  the traversal reads them. Two nodes may resolve to the same canonical path (links).
\<close>

datatype fsnode = File string string | Dir string string "fsnode list"

fun node_name :: "fsnode \<Rightarrow> string" where
  "node_name (File n p) = n"
| "node_name (Dir n p kids) = n"

fun node_resolved :: "fsnode \<Rightarrow> string" where
  "node_resolved (File n p) = p"
| "node_resolved (Dir n p kids) = p"

fun node_is_dir :: "fsnode \<Rightarrow> bool" where
  "node_is_dir (File n p) = False"
| "node_is_dir (Dir n p kids) = True"

text \<open>A path that the traversal yields: its parts relative to the scan root (the last one
  is its name), its canonical path, and whether it is a directory.\<close>

record path_entry =
  parts :: "string list"
  resolved :: string
  is_dir :: bool

definition name :: "path_entry \<Rightarrow> string" where
  "name f = last (parts f)"

definition rel_dirs :: "path_entry \<Rightarrow> string list" where
  "rel_dirs f = butlast (parts f)"

text \<open>\<^verbatim>\<open>Path.stem\<close>: the name up to its last dot, when that dot is neither the first nor
  the last character of the name.\<close>

definition rfind_dot :: "string \<Rightarrow> int" where
  "rfind_dot n =
     (if CHR ''.'' \<in> set n
      then int (length n) - 1 - int (length (takeWhile (\<lambda>c. c \<noteq> CHR ''.'') (rev n)))
      else - 1)"

definition stem :: "path_entry \<Rightarrow> string" where
  "stem f =
     (let n = name f; i = rfind_dot n in
      if 0 < i \<and> i < int (length n) - 1 then take (nat i) n else n)"

text \<open>
  \<^verbatim>\<open>basepath.rglob(pattern)\<close>: the root and every directory below it are visited, a
  directory before the directories inside it; in each, the entries whose name matches the
  pattern are yielded, files and directories alike. The pattern \<^verbatim>\<open>*.*\<close> matches the
  names that contain a dot.
\<close>

fun iterate_directories :: "string list \<Rightarrow> fsnode \<Rightarrow> (string list \<times> fsnode list) list" where
  "iterate_directories rel (File n p) = []"
| "iterate_directories rel (Dir n p kids) =
     (rel, kids) # concat (map (\<lambda>k. iterate_directories (rel @ [node_name k]) k) kids)"

definition select_from :: "(string \<Rightarrow> bool) \<Rightarrow> string list \<times> fsnode list \<Rightarrow> path_entry list" where
  "select_from pat d =
     map (\<lambda>k. \<lparr>parts = fst d @ [node_name k], resolved = node_resolved k,
                is_dir = node_is_dir k\<rparr>)
         (filter (\<lambda>k. pat (node_name k)) (snd d))"

definition rglob :: "(string \<Rightarrow> bool) \<Rightarrow> fsnode \<Rightarrow> path_entry list" where
  "rglob pat basepath = concat (map (select_from pat) (iterate_directories [] basepath))"

definition star_dot_star :: "string \<Rightarrow> bool" where
  "star_dot_star n = (CHR ''.'' \<in> set n)"

text \<open>\<^verbatim>\<open>max(a_scores) if a_scores else 0\<close> over the scores appended by the three nested
  loops.\<close>

definition a_scores ::
  "(string \<Rightarrow> string \<Rightarrow> 's) \<Rightarrow> string list \<Rightarrow> path_entry \<Rightarrow> 's list"
where
  "a_scores sc in_as f =
     concat (map (\<lambda>d. concat (map (\<lambda>db_a. map (\<lambda>in_a. sc in_a db_a) in_as)
                                   (split_artists (norm (Some d)))))
                 (rel_dirs f))"

definition a_score :: "(string \<Rightarrow> string \<Rightarrow> 's::{linorder,zero}) \<Rightarrow> string list \<Rightarrow> path_entry \<Rightarrow> 's" where
  "a_score sc in_as f =
     (case a_scores sc in_as f of [] \<Rightarrow> 0 | x # xs \<Rightarrow> foldl max x xs)"

text \<open>The body of the loop up to the test of \<^verbatim>\<open>ok\<close>: the pair of \<^verbatim>\<open>ok\<close> and
  \<^verbatim>\<open>best_score\<close>.\<close>

definition fs_match ::
  "(string \<Rightarrow> string \<Rightarrow> 's::{linorder,zero}) \<Rightarrow> string \<Rightarrow> string \<Rightarrow> 's \<Rightarrow> path_entry \<Rightarrow> bool \<times> 's"
where
  "fs_match sc title artist score_cut f =
     (let file_name = norm (Some (stem f)) in
      if title \<noteq> [] \<and> artist \<noteq> [] then
        (let t_score = sc title file_name;
             a = a_score sc (input_artists artist) f
         in if score_cut \<le> t_score \<and> score_cut \<le> a then (True, min t_score a)
            else (False, 0))
      else if title \<noteq> [] then
        (let t_score = sc title file_name
         in if score_cut \<le> t_score then (True, t_score) else (False, 0))
      else if artist \<noteq> [] then
        (let a = a_score sc (input_artists artist) f
         in if score_cut \<le> a then (True, a) else (False, 0))
      else (False, 0))"

text \<open>One round of the loop: the state is the list of results and the set of canonical
  paths seen.\<close>

definition fs_step ::
  "(string \<Rightarrow> string \<Rightarrow> 's::{linorder,zero}) \<Rightarrow> string \<Rightarrow> string \<Rightarrow> 's \<Rightarrow>
     's fs_hit list \<times> string set \<Rightarrow> path_entry \<Rightarrow> 's fs_hit list \<times> string set"
where
  "fs_step sc title artist score_cut st f =
     (let m = fs_match sc title artist score_cut f; ok = fst m; best_score = snd m in
      if ok then
        (let p = resolved f in
         if p \<notin> snd st
         then (fst st @ [\<lparr>score = best_score, item = name f, path = p\<rparr>], insert p (snd st))
         else st)
      else st)"

definition fs_results ::
  "(string \<Rightarrow> string \<Rightarrow> 's::{linorder,zero}) \<Rightarrow> fsnode \<Rightarrow> string \<Rightarrow> string \<Rightarrow> 's \<Rightarrow>
     's fs_hit list"
where
  "fs_results sc basepath title artist score_cut =
     fst (foldl (fs_step sc title artist score_cut) ([], {}) (rglob star_dot_star basepath))"

definition scan_files ::
  "(string \<Rightarrow> string \<Rightarrow> 's::{linorder,zero}) \<Rightarrow> fsnode \<Rightarrow> string \<Rightarrow> string \<Rightarrow> 's \<Rightarrow>
     's fs_hit list"
where
  "scan_files sc basepath title artist score_cut =
     py_sorted_rev score (fs_results sc basepath title artist score_cut)"


section \<open>Classification of the items\<close>

text \<open>The part of \<^verbatim>\<open>main\<close> that processes the items and counts them. The filesystem is
  scanned only when a directory is given.\<close>

record query =
  q_title :: string
  q_artist :: string

record 's item_result =
  r_artist :: string
  r_title :: string
  rb_count :: nat
  fs_count :: nat
  rb_items :: "'s hit list"
  fs_items :: "'s fs_hit list"

definition process_item ::
  "(string \<Rightarrow> string \<Rightarrow> 's::{linorder,zero}) \<Rightarrow> content list \<Rightarrow> fsnode option \<Rightarrow> 's \<Rightarrow> query \<Rightarrow>
     's item_result"
where
  "process_item sc recs dir min_score row =
     (let rb_hits = scan_rekordbox sc recs (q_title row) (q_artist row) min_score;
          fs_hits = (case dir of
                       Some d \<Rightarrow> scan_files sc d (q_title row) (q_artist row) min_score
                     | None \<Rightarrow> [])
      in \<lparr>r_artist = q_artist row, r_title = q_title row,
          rb_count = length rb_hits, fs_count = length fs_hits,
          rb_items = rb_hits, fs_items = fs_hits\<rparr>)"

definition process_items ::
  "(string \<Rightarrow> string \<Rightarrow> 's::{linorder,zero}) \<Rightarrow> content list \<Rightarrow> fsnode option \<Rightarrow> 's \<Rightarrow> query list \<Rightarrow>
     's item_result list"
where
  "process_items sc recs dir min_score items = map (process_item sc recs dir min_score) items"

text \<open>The three conditions that the summary counts, and the counts: the sum of a
  sequence of truth values is the number of true ones.\<close>

definition in_rb :: "'s item_result \<Rightarrow> bool" where
  "in_rb r = (0 < rb_count r)"

definition on_fs :: "'s item_result \<Rightarrow> bool" where
  "on_fs r = (rb_count r = 0 \<and> 0 < fs_count r)"

definition no_match :: "'s item_result \<Rightarrow> bool" where
  "no_match r = (rb_count r = 0 \<and> fs_count r = 0)"

definition count_true :: "('a \<Rightarrow> bool) \<Rightarrow> 'a list \<Rightarrow> nat" where
  "count_true p rs = sum_list (map (\<lambda>r. if p r then 1 else 0) rs)"

definition rb_ct :: "'s item_result list \<Rightarrow> nat" where
  "rb_ct results = count_true in_rb results"

definition fs_ct :: "'s item_result list \<Rightarrow> nat" where
  "fs_ct results = count_true on_fs results"

definition none_ct :: "'s item_result list \<Rightarrow> nat" where
  "none_ct results = count_true no_match results"

section \<open>The loops as lists\<close>

text \<open>The score and the hit that one round of the database loop computes for a record.\<close>

definition rb_score :: "(string \<Rightarrow> string \<Rightarrow> 's::{linorder,zero}) \<Rightarrow> string \<Rightarrow> string \<Rightarrow> content \<Rightarrow> 's" where
  "rb_score sc title artist c =
     rb_best_score sc title artist (norm (Some (raw_title c))) (db_artists (norm (raw_artist c)))"

definition rb_hit :: "(string \<Rightarrow> string \<Rightarrow> 's::{linorder,zero}) \<Rightarrow> string \<Rightarrow> string \<Rightarrow> content \<Rightarrow> 's hit" where
  "rb_hit sc title artist c =
     \<lparr>score = rb_score sc title artist c,
      item = format_str (raw_artist c) @ '' - '' @ raw_title c\<rparr>"

text \<open>The hit that one round of the filesystem loop appends for an entry, and the entries
  of a list whose canonical path is neither in \<open>seen\<close> nor that of an earlier entry.\<close>

definition fs_hit_of :: "(string \<Rightarrow> string \<Rightarrow> 's::{linorder,zero}) \<Rightarrow> string \<Rightarrow> string \<Rightarrow> 's \<Rightarrow> path_entry \<Rightarrow> 's fs_hit" where
  "fs_hit_of sc title artist score_cut f =
     \<lparr>score = snd (fs_match sc title artist score_cut f), item = name f, path = resolved f\<rparr>"

fun first_visits :: "string set \<Rightarrow> path_entry list \<Rightarrow> path_entry list" where
  "first_visits seen [] = []"
| "first_visits seen (f # fs) =
     (if resolved f \<in> seen then first_visits seen fs
      else f # first_visits (insert (resolved f) seen) fs)"

section \<open>The scores of the two scanners for a query with title and artist\<close>

text \<open>
  For the filesystem scanner: the title score of an entry is the score of the query title
  against the normalized stem; the artist score is the greatest score over the pairs of
  a query artist token and a token of a normalized directory name between the root and
  the entry, and 0 when there is no pair.
\<close>

definition title_score :: "(string \<Rightarrow> string \<Rightarrow> 's) \<Rightarrow> string \<Rightarrow> path_entry \<Rightarrow> 's" where
  "title_score sc title f = sc title (norm (Some (stem f)))"

definition artist_pairs :: "string \<Rightarrow> path_entry \<Rightarrow> (string \<times> string) list" where
  "artist_pairs artist f =
     [(qa, da). d \<leftarrow> rel_dirs f, da \<leftarrow> split_artists (norm (Some d)), qa \<leftarrow> split_artists artist]"

definition artist_score :: "(string \<Rightarrow> string \<Rightarrow> 's::{linorder,zero}) \<Rightarrow> string \<Rightarrow> path_entry \<Rightarrow> 's" where
  "artist_score sc artist f =
     (if artist_pairs artist f = [] then 0
      else Max ((\<lambda>(qa, da). sc qa da) ` set (artist_pairs artist f)))"

definition and_hit :: "(string \<Rightarrow> string \<Rightarrow> 's::{linorder,zero}) \<Rightarrow> string \<Rightarrow> string \<Rightarrow> path_entry \<Rightarrow> 's fs_hit" where
  "and_hit sc title artist f =
     \<lparr>score = min (title_score sc title f) (artist_score sc artist f),
      item = name f, path = resolved f\<rparr>"

text \<open>
  For the database scanner: the greatest similarity of the composite strings
  \<^verbatim>\<open>title::qa\<close> and \<^verbatim>\<open>dbtitle::da\<close> over the pairs of a query artist token and a
  database artist token, and 0 when there is no pair.
\<close>

definition composite_pairs :: "string \<Rightarrow> content \<Rightarrow> (string \<times> string) list" where
  "composite_pairs artist c =
     [(qa, da). qa \<leftarrow> split_artists artist, da \<leftarrow> db_artists (norm (raw_artist c))]"

definition composite_score ::
  "(string \<Rightarrow> string \<Rightarrow> 's::{linorder,zero}) \<Rightarrow> string \<Rightarrow> string \<Rightarrow> content \<Rightarrow> 's" where
  "composite_score sc title artist c =
     (if composite_pairs artist c = [] then 0
      else Max ((\<lambda>(qa, da). sc (title @ ''::'' @ qa) (norm (Some (raw_title c)) @ ''::'' @ da))
                  ` set (composite_pairs artist c)))"


definition composite_hit ::
  "(string \<Rightarrow> string \<Rightarrow> 's::{linorder,zero}) \<Rightarrow> string \<Rightarrow> string \<Rightarrow> content \<Rightarrow> 's hit" where
  "composite_hit sc title artist c =
     \<lparr>score = composite_score sc title artist c,
      item = format_str (raw_artist c) @ '' - '' @ raw_title c\<rparr>"

section \<open>Strings without annotations\<close>

text \<open>
  The suffixes of a string, and the strings in which nothing is left to remove: none of
  the four mix phrases occurs in the string, and none of the six feature patterns matches
  at any position of it. A string is stripped when it neither starts nor ends with
  white space.
\<close>

fun tails :: "string \<Rightarrow> string list" where
  "tails [] = [[]]"
| "tails (c # cs) = (c # cs) # tails cs"

definition occurs :: "string \<Rightarrow> string \<Rightarrow> bool" where
  "occurs pat t = (\<exists>suf \<in> set (tails t). str_startswith suf pat)"

definition mix_free :: "string \<Rightarrow> bool" where
  "mix_free t = (\<forall>pat \<in> set ORIGINAL_MIX_PATTERNS. \<not> occurs pat t)"

definition feat_free :: "string \<Rightarrow> bool" where
  "feat_free t = (\<forall>pat \<in> set FEAT_PATTERNS. \<forall>suf \<in> set (tails t). match_here pat suf = None)"

definition annotation_free :: "string \<Rightarrow> bool" where
  "annotation_free t = (mix_free t \<and> feat_free t)"

definition stripped :: "string \<Rightarrow> bool" where
  "stripped t = (t = [] \<or> (\<not> is_space (hd t) \<and> \<not> is_space (last t)))"

section \<open>Inputs for the examples\<close>

text \<open>Equal strings score 100, different strings 0.\<close>

definition sc_eq :: "string \<Rightarrow> string \<Rightarrow> int" where
  "sc_eq a b = (if a = b then 100 else 0)"

definition artist_x_z :: fsnode where
  "artist_x_z =
     Dir ''music'' ''/music''
       [Dir ''Artist X'' ''/music/Artist X'' [File ''Track Y.flac'' ''/music/Artist X/Track Y.flac''],
        Dir ''Artist Z'' ''/music/Artist Z'' [File ''Track Y.flac'' ''/music/Artist Z/Track Y.flac'']]"

definition strobe :: content where
  "strobe = \<lparr>Title = Val ''Strobe (Original Mix)'', Artist = Val \<lparr>Name = Val ''Deadmau5''\<rparr>\<rparr>"


text \<open>A tree in which one file is met twice: the entry in \<^verbatim>\<open>b\<close> is a link to the file
  in \<^verbatim>\<open>a\<close>, and the second entry that the traversal yields for it.\<close>

definition linked_tree :: fsnode where
  "linked_tree =
     Dir ''music'' ''/music''
       [Dir ''a'' ''/music/a'' [File ''strobe.mp3'' ''/music/a/strobe.mp3''],
        Dir ''b'' ''/music/b'' [File ''strobe.mp3'' ''/music/a/strobe.mp3'']]"

definition linked_entry :: path_entry where
  "linked_entry =
     \<lparr>parts = [''b'', ''strobe.mp3''], resolved = ''/music/a/strobe.mp3'', is_dir = False\<rparr>"

section \<open>Sorting\<close>

lemma py_sorted_rev_desc: "sorted_wrt (\<lambda>a b. key b \<le> key a) (py_sorted_rev key xs)"
proof -
  have "sorted (map key (sort_key key (rev xs)))" by (rule sorted_sort_key)
  then have "sorted_wrt (\<lambda>a b. key a \<le> key b) (sort_key key (rev xs))"
    by (simp add: sorted_wrt_map)
  then show ?thesis
    by (simp add: py_sorted_rev_def sorted_wrt_rev)
qed

lemma py_sorted_rev_stable:
  "filter (\<lambda>h. key h = k) (py_sorted_rev key xs) = filter (\<lambda>h. key h = k) xs"
  by (simp add: py_sorted_rev_def rev_filter [symmetric] sort_key_stable)

lemma set_py_sorted_rev: "set (py_sorted_rev key xs) = set xs"
  by (simp add: py_sorted_rev_def)


lemma distinct_map_insort_key:
  "distinct (map g (insort_key f x xs)) = (g x \<notin> g ` set xs \<and> distinct (map g xs))"
  by (induction xs) (auto simp: set_insort_key)

lemma distinct_map_sort_key: "distinct (map g (sort_key f xs)) = distinct (map g xs)"
  by (induction xs) (auto simp: distinct_map_insort_key)

lemma distinct_map_py_sorted_rev:
  "distinct (map g (py_sorted_rev key xs)) = distinct (map g xs)"
  by (simp add: py_sorted_rev_def rev_map [symmetric] distinct_map_sort_key del: rev_map)

section \<open>The loops of the scanners\<close>

lemma rb_loop_eq:
  "foldl (rb_step sc title artist score_cut) acc contents =
     acc @ map (rb_hit sc title artist)
              (filter (\<lambda>c. score_cut \<le> rb_score sc title artist c) contents)"
  by (induction contents arbitrary: acc) (simp_all add: rb_step_def rb_hit_def rb_score_def Let_def)

lemma rb_results_eq:
  "rb_results sc contents title artist score_cut =
     map (rb_hit sc title artist)
         (filter (\<lambda>c. score_cut \<le> rb_score sc title artist c) contents)"
  by (simp add: rb_results_def rb_loop_eq)

lemma fs_loop_eq:
  "foldl (fs_step sc title artist score_cut) (acc, seen) fs =
     (acc @ map (fs_hit_of sc title artist score_cut)
              (first_visits seen (filter (\<lambda>f. fst (fs_match sc title artist score_cut f)) fs)),
      seen \<union> resolved ` set (filter (\<lambda>f. fst (fs_match sc title artist score_cut f)) fs))"
proof (induction fs arbitrary: acc seen)
  case Nil
  show ?case by simp
next
  case (Cons f fs)
  show ?case
  proof (cases "fst (fs_match sc title artist score_cut f)")
    case False
    then have "fs_step sc title artist score_cut (acc, seen) f = (acc, seen)"
      by (simp add: fs_step_def Let_def)
    with False Cons.IH show ?thesis by simp
  next
    case True
    show ?thesis
    proof (cases "resolved f \<in> seen")
      case in_seen: True
      with True have "fs_step sc title artist score_cut (acc, seen) f = (acc, seen)"
        by (simp add: fs_step_def Let_def)
      with True in_seen Cons.IH show ?thesis by (simp add: insert_absorb)
    next
      case new: False
      with True have "fs_step sc title artist score_cut (acc, seen) f =
          (acc @ [fs_hit_of sc title artist score_cut f], insert (resolved f) seen)"
        by (simp add: fs_step_def fs_hit_of_def Let_def)
      with True new Cons.IH show ?thesis by simp
    qed
  qed
qed

lemma fs_results_eq:
  "fs_results sc basepath title artist score_cut =
     map (fs_hit_of sc title artist score_cut)
         (first_visits {} (filter (\<lambda>f. fst (fs_match sc title artist score_cut f))
                                  (rglob star_dot_star basepath)))"
  by (simp add: fs_results_def fs_loop_eq)

lemma first_visits_resolved:
  "distinct (map resolved (first_visits seen fs)) \<and>
   resolved ` set (first_visits seen fs) \<inter> seen = {}"
  by (induction fs arbitrary: seen) auto

lemma set_first_visits: "set (first_visits seen fs) \<subseteq> set fs"
  by (induction fs arbitrary: seen) auto

lemma resolved_first_visits:
  "resolved ` set (first_visits seen fs) = resolved ` set fs - seen"
  by (induction fs arbitrary: seen) auto


lemma count_true_sum:
  "count_true in_rb rs + count_true on_fs rs + count_true no_match rs = length rs"
  by (induction rs) (auto simp: count_true_def in_rb_def on_fs_def no_match_def)

section \<open>Classification\<close>

text \<open>
  C7. The result of an item is in exactly one of the three buckets: matched in the
  database when the database hit list is not empty (whatever the filesystem hit list),
  matched on the filesystem when the database hit list is empty and the filesystem hit
  list is not, unmatched when both are empty. The three summary counts add up to the
  number of items.
\<close>

theorem classification_exclusive:
  "(let r = process_item sc recs dir min_score row in
      (in_rb r = (scan_rekordbox sc recs (q_title row) (q_artist row) min_score \<noteq> [])) \<and>
      (on_fs r = (rb_items r = [] \<and> fs_items r \<noteq> [])) \<and>
      (no_match r = (rb_items r = [] \<and> fs_items r = [])) \<and>
      (if in_rb r then 1 else 0) + (if on_fs r then 1 else 0) + (if no_match r then 1 else 0)
        = (1::nat)) \<and>
   rb_ct (process_items sc recs dir min_score items)
     + fs_ct (process_items sc recs dir min_score items)
     + none_ct (process_items sc recs dir min_score items) = length items"
proof -
  have "rb_ct (process_items sc recs dir min_score items)
     + fs_ct (process_items sc recs dir min_score items)
     + none_ct (process_items sc recs dir min_score items)
     = length (process_items sc recs dir min_score items)"
    unfolding rb_ct_def fs_ct_def none_ct_def by (rule count_true_sum)
  moreover have "length (process_items sc recs dir min_score items) = length items"
    by (simp add: process_items_def)
  ultimately show ?thesis
    by (auto simp: Let_def process_item_def in_rb_def on_fs_def no_match_def)
qed

section \<open>Order of the hits\<close>

text \<open>
  C8. Both scanners return their hits by descending score, and the hits of one score are
  in the order in which the loop met them: the order of the records for the database
  scanner, the order of the traversal for the filesystem scanner.
\<close>

theorem hits_sorted_stable:
  "sorted_wrt (\<lambda>a b. score b \<le> score a) (scan_rekordbox sc contents title artist score_cut) \<and>
   (\<forall>k. filter (\<lambda>h. score h = k) (scan_rekordbox sc contents title artist score_cut) =
        filter (\<lambda>h. score h = k)
          (map (rb_hit sc title artist)
               (filter (\<lambda>c. score_cut \<le> rb_score sc title artist c) contents))) \<and>
   sorted_wrt (\<lambda>a b. score b \<le> score a) (scan_files sc basepath title artist score_cut) \<and>
   (\<forall>k. filter (\<lambda>h. score h = k) (scan_files sc basepath title artist score_cut) =
        filter (\<lambda>h. score h = k)
          (map (fs_hit_of sc title artist score_cut)
               (first_visits {} (filter (\<lambda>f. fst (fs_match sc title artist score_cut f))
                                        (rglob star_dot_star basepath)))))"
  by (simp add: scan_rekordbox_def scan_files_def py_sorted_rev_desc py_sorted_rev_stable
        rb_results_eq fs_results_eq)

lemma length_filter_distinct_map:
  "distinct (map g xs) \<Longrightarrow> p \<in> g ` set xs \<Longrightarrow> length (filter (\<lambda>x. g x = p) xs) = 1"
proof (induction xs)
  case Nil
  then show ?case by simp
next
  case (Cons x xs)
  show ?case
  proof (cases "g x = p")
    case True
    with Cons.prems(1) have "p \<notin> g ` set xs" by auto
    then have "filter (\<lambda>x. g x = p) xs = []" by (auto simp: filter_empty_conv)
    with True show ?thesis by simp
  next
    case False
    with Cons show ?thesis by auto
  qed
qed

text \<open>
  C9. No two hits of the filesystem scanner have the same canonical path, and every entry
  of the traversal that passes the test of the query has exactly one hit with its
  canonical path, however often the traversal meets that path.
\<close>

theorem hits_one_per_path:
  "distinct (map path (scan_files sc basepath title artist score_cut)) \<and>
   (\<forall>f \<in> set (rglob star_dot_star basepath).
      fst (fs_match sc title artist score_cut f) \<longrightarrow>
      length (filter (\<lambda>h. path h = resolved f)
                (scan_files sc basepath title artist score_cut)) = 1)"
proof -
  let ?fs = "filter (\<lambda>f. fst (fs_match sc title artist score_cut f)) (rglob star_dot_star basepath)"
  let ?hits = "scan_files sc basepath title artist score_cut"
  have paths: "map path (fs_results sc basepath title artist score_cut) =
        map resolved (first_visits {} ?fs)"
    by (simp add: fs_results_eq fs_hit_of_def comp_def)
  then have "distinct (map path (fs_results sc basepath title artist score_cut))"
    by (simp add: first_visits_resolved)
  then have dist: "distinct (map path ?hits)"
    by (simp add: scan_files_def distinct_map_py_sorted_rev)
  have set_paths: "path ` set ?hits = resolved ` set ?fs"
  proof -
    have "path ` set ?hits = set (map path (fs_results sc basepath title artist score_cut))"
      by (simp add: scan_files_def set_py_sorted_rev)
    also have "\<dots> = resolved ` set (first_visits {} ?fs)"
      by (simp only: paths set_map)
    also have "\<dots> = resolved ` set ?fs"
      by (simp add: resolved_first_visits)
    finally show ?thesis .
  qed
  have "length (filter (\<lambda>h. path h = resolved f) ?hits) = 1"
    if "f \<in> set (rglob star_dot_star basepath)" and "fst (fs_match sc title artist score_cut f)"
    for f
  proof -
    from that have "resolved f \<in> resolved ` set ?fs" by simp
    then have "resolved f \<in> path ` set ?hits" by (simp only: set_paths)
    with dist show ?thesis by (rule length_filter_distinct_map)
  qed
  with dist show ?thesis by blast
qed

theorem hits_one_per_path_witness:
  "map resolved (rglob star_dot_star linked_tree) =
     [''/music/a/strobe.mp3'', ''/music/a/strobe.mp3''] \<and>
   linked_entry \<in> set (rglob star_dot_star linked_tree) \<and>
   fst (fs_match sc_eq ''strobe'' [] 90 linked_entry) \<and>
   length (filter (\<lambda>h. path h = resolved linked_entry)
             (scan_files sc_eq linked_tree ''strobe'' [] 90)) = 1 \<and>
   scan_files sc_eq linked_tree ''strobe'' [] 90 =
     [\<lparr>score = 100, item = ''strobe.mp3'', path = ''/music/a/strobe.mp3''\<rparr>]"
proof -
  have twice: "map resolved (rglob star_dot_star linked_tree) =
     [''/music/a/strobe.mp3'', ''/music/a/strobe.mp3'']"
    by code_simp
  have mem: "linked_entry \<in> set (rglob star_dot_star linked_tree)" by code_simp
  have ok: "fst (fs_match sc_eq ''strobe'' [] 90 linked_entry)" by code_simp
  have hits: "scan_files sc_eq linked_tree ''strobe'' [] 90 =
     [\<lparr>score = 100, item = ''strobe.mp3'', path = ''/music/a/strobe.mp3''\<rparr>]"
    by code_simp
  have "\<forall>f \<in> set (rglob star_dot_star linked_tree).
      fst (fs_match sc_eq ''strobe'' [] 90 f) \<longrightarrow>
      length (filter (\<lambda>h. path h = resolved f)
                (scan_files sc_eq linked_tree ''strobe'' [] 90)) = 1"
    using hits_one_per_path [where sc = sc_eq and basepath = linked_tree and title = "''strobe''"
        and artist = "[]" and score_cut = 90]
    by (rule conjunct2)
  with mem ok have "length (filter (\<lambda>h. path h = resolved linked_entry)
             (scan_files sc_eq linked_tree ''strobe'' [] 90)) = 1"
    by blast
  with twice mem ok hits show ?thesis by (intro conjI)
qed

section \<open>The empty query\<close>






section \<open>The tokenizer on examples\<close>

text \<open>
  C5, as stated, fails on the empty string: the tokenizer returns the empty list, not the
  list of the empty string.
\<close>

theorem split_artists_empty_counterexample: "split_artists [] \<noteq> [[]]"
  by code_simp

text \<open>
  C5, amended. \<open>split_artists\<close> maps \<^verbatim>\<open>"A & B"\<close> to \<^verbatim>\<open>["A", "B"]\<close>,
  \<^verbatim>\<open>"A, B and C"\<close> to \<^verbatim>\<open>["A", "B", "C"]\<close> and the empty string to the empty list;
  the list of the empty string is what the two call sites of the scanners put in place of
  an empty artist.
\<close>

theorem split_artists_examples:
  "split_artists ''A & B'' = [''A'', ''B''] \<and>
   split_artists ''A, B and C'' = [''A'', ''B'', ''C''] \<and>
   split_artists [] = [] \<and>
   input_artists [] = [[]] \<and>
   db_artists [] = [[]]"
  by code_simp

section \<open>Records with absent attributes\<close>

text \<open>
  C10. A record whose artist has the name \<^verbatim>\<open>None\<close> is scanned without error, but the
  name is not taken as the empty string in the label: the label starts with the text
  \<^verbatim>\<open>None\<close>. A title that is \<^verbatim>\<open>None\<close> does become the empty string.
\<close>

theorem none_artist_name_label:
  "scan_rekordbox sc_eq [\<lparr>Title = Val ''strobe'', Artist = Val \<lparr>Name = PyNone\<rparr>\<rparr>]
     ''strobe'' [] 80 = [\<lparr>score = 100, item = ''None - strobe''\<rparr>] \<and>
   scan_rekordbox sc_eq [\<lparr>Title = PyNone, Artist = Val \<lparr>Name = Val ''x''\<rparr>\<rparr>]
     [] ''x'' 80 = [\<lparr>score = 100, item = ''x - ''\<rparr>]"
  by code_simp

section \<open>Scores as maxima\<close>

lemma Max_insert_Max:
  assumes "finite A" "finite B"
  shows "Max (insert (Max (insert (x::'s::linorder) A)) B) = Max (insert x (A \<union> B))"
proof (cases "B = {}")
  case True
  then show ?thesis by simp
next
  case False
  have "Max (insert x (A \<union> B)) = Max (insert x A \<union> B)" by simp
  also have "\<dots> = max (Max (insert x A)) (Max B)"
    using assms False by (intro Max_Un) simp_all
  also have "\<dots> = Max (insert (Max (insert x A)) B)"
    using assms False by simp
  finally show ?thesis by simp
qed

lemma foldl_max_Max: "foldl (\<lambda>b a. max b (g a)) (x::'s::linorder) xs = Max (insert x (g ` set xs))"
proof (induction xs arbitrary: x)
  case Nil
  show ?case by simp
next
  case (Cons y ys)
  have "Max (insert (max x (g y)) (g ` set ys)) = Max (insert x (insert (g y) (g ` set ys)))"
    using Max_insert_Max [of "{g y}" "g ` set ys" x] by (simp add: max.commute)
  with Cons show ?case by simp
qed

lemma foldl_foldl_max:
  "foldl (\<lambda>b qa. foldl (\<lambda>b da. max b (g qa da)) b das) (x::'s::linorder) qas =
     Max (insert x ((\<lambda>(qa, da). g qa da) ` (set qas \<times> set das)))"
proof (induction qas arbitrary: x)
  case Nil
  show ?case by simp
next
  case (Cons qa qas)
  let ?A = "g qa ` set das"
  let ?B = "(\<lambda>(qa, da). g qa da) ` (set qas \<times> set das)"
  have split: "(\<lambda>(qa, da). g qa da) ` (set (qa # qas) \<times> set das) = ?A \<union> ?B"
    by auto
  have "foldl (\<lambda>b qa. foldl (\<lambda>b da. max b (g qa da)) b das) x (qa # qas) =
        Max (insert (Max (insert x ?A)) ?B)"
    by (simp only: foldl_Cons Cons.IH) (simp only: foldl_max_Max)
  also have "\<dots> = Max (insert x (?A \<union> ?B))"
    by (rule Max_insert_Max) simp_all
  finally show ?case by (simp only: split)
qed

lemma set_artist_pairs:
  "set (artist_pairs artist f) =
     {(qa, da). qa \<in> set (split_artists artist) \<and>
        (\<exists>d \<in> set (rel_dirs f). da \<in> set (split_artists (norm (Some d))))}"
  by (auto simp: artist_pairs_def)

lemma set_a_scores:
  "set (a_scores sc (split_artists artist) f) = (\<lambda>(qa, da). sc qa da) ` set (artist_pairs artist f)"
  by (auto simp: a_scores_def set_artist_pairs image_iff)

lemma set_composite_pairs:
  "set (composite_pairs artist c) =
     set (split_artists artist) \<times> set (db_artists (norm (raw_artist c)))"
  by (auto simp: composite_pairs_def)

lemma a_score_eq:
  assumes "artist \<noteq> []"
  shows "a_score sc (input_artists artist) f = artist_score sc artist f"
proof -
  have ia: "input_artists artist = split_artists artist"
    using assms by (simp add: input_artists_def)
  show ?thesis
  proof (cases "a_scores sc (split_artists artist) f")
    case Nil
    then have "set (a_scores sc (split_artists artist) f) = {}" by simp
    then have "artist_pairs artist f = []" by (simp add: set_a_scores)
    with Nil show ?thesis by (simp add: a_score_def ia artist_score_def)
  next
    case (Cons x xs)
    then have eq: "insert x (set xs) = (\<lambda>(qa, da). sc qa da) ` set (artist_pairs artist f)"
      using set_a_scores [of sc artist f] by simp
    then have "artist_pairs artist f \<noteq> []" by auto
    moreover have "foldl max x xs = Max (insert x (set xs))"
      using foldl_max_Max [of "\<lambda>a. a" x xs] by simp
    ultimately show ?thesis
      using Cons eq by (simp add: a_score_def ia artist_score_def)
  qed
qed

lemma rb_score_eq:
  assumes "title \<noteq> []" "artist \<noteq> []" "\<And>a b. 0 \<le> sc a b"
  shows "rb_score sc title artist c = composite_score sc title artist c"
proof -
  let ?g = "\<lambda>(qa, da). sc (title @ ''::'' @ qa) (norm (Some (raw_title c)) @ ''::'' @ da)"
  let ?S = "?g ` set (composite_pairs artist c)"
  have ia: "input_artists artist = split_artists artist"
    using assms(2) by (simp add: input_artists_def)
  have "rb_score sc title artist c =
        foldl (\<lambda>b qa. foldl (\<lambda>b da. max b (sc (title @ ''::'' @ qa)
                 (norm (Some (raw_title c)) @ ''::'' @ da))) b (db_artists (norm (raw_artist c))))
              0 (split_artists artist)"
    using assms(1,2) by (simp add: rb_score_def rb_best_score_def ia)
  also have "\<dots> = Max (insert 0 ?S)"
    by (simp only: foldl_foldl_max set_composite_pairs)
  also have "\<dots> = composite_score sc title artist c"
  proof (cases "composite_pairs artist c = []")
    case True
    then show ?thesis by (simp add: composite_score_def)
  next
    case False
    then obtain p where p: "p \<in> set (composite_pairs artist c)"
      by (cases "composite_pairs artist c") auto
    have fin: "finite ?S" by simp
    have "0 \<le> ?g p" using assms(3) by (cases p) simp
    also have "?g p \<le> Max ?S" using p fin by (intro Max_ge) auto
    finally have "max 0 (Max ?S) = Max ?S" by (simp add: max_absorb2)
    moreover have "Max (insert 0 ?S) = max 0 (Max ?S)"
      using p fin by (intro Max_insert) auto
    ultimately show ?thesis using False by (simp add: composite_score_def)
  qed
  finally show ?thesis .
qed

section \<open>Title and artist on the filesystem\<close>

lemma fs_match_ok:
  assumes "title \<noteq> []" "artist \<noteq> []"
  shows "fst (fs_match sc title artist score_cut f) =
           (score_cut \<le> title_score sc title f \<and> score_cut \<le> artist_score sc artist f)"
  using assms by (simp add: fs_match_def title_score_def a_score_eq Let_def)

lemma fs_match_hit:
  assumes "title \<noteq> []" "artist \<noteq> []" "fst (fs_match sc title artist score_cut f)"
  shows "fs_hit_of sc title artist score_cut f = and_hit sc title artist f"
  using assms
  by (simp add: fs_match_def fs_hit_of_def and_hit_def title_score_def a_score_eq Let_def
        split: if_splits)

lemma map_first_visits_cong:
  "(\<And>f. f \<in> set fs \<Longrightarrow> g f = h f) \<Longrightarrow> map g (first_visits seen fs) = map h (first_visits seen fs)"
  using set_first_visits [of seen fs] by (intro map_cong) auto

text \<open>
  C1. For a query with a title and an artist, the filesystem scanner keeps an entry
  exactly when its title score and its artist score both reach the threshold, and records
  for it the smaller of the two scores; an entry whose artist score is below the
  threshold gives no hit, whatever its title score. The hits are those of the entries
  that pass, one for each canonical path (the first entry met), sorted: every hit is the
  hit of an entry that passes, and every entry that passes has a hit with its canonical
  path.
\<close>

theorem scan_files_title_and_artist:
  assumes "title \<noteq> []" and "artist \<noteq> []"
  shows "scan_files sc basepath title artist score_cut =
           py_sorted_rev score
             (map (and_hit sc title artist)
                (first_visits {}
                   (filter (\<lambda>f. score_cut \<le> title_score sc title f \<and>
                                 score_cut \<le> artist_score sc artist f)
                           (rglob star_dot_star basepath)))) \<and>
         (\<forall>h \<in> set (scan_files sc basepath title artist score_cut).
            \<exists>f \<in> set (rglob star_dot_star basepath).
              score_cut \<le> title_score sc title f \<and> score_cut \<le> artist_score sc artist f \<and>
              h = and_hit sc title artist f) \<and>
         (\<forall>f \<in> set (rglob star_dot_star basepath).
            score_cut \<le> title_score sc title f \<and> score_cut \<le> artist_score sc artist f \<longrightarrow>
            (\<exists>h \<in> set (scan_files sc basepath title artist score_cut). path h = resolved f))"
proof -
  let ?q = "\<lambda>f. score_cut \<le> title_score sc title f \<and> score_cut \<le> artist_score sc artist f"
  let ?fs = "filter ?q (rglob star_dot_star basepath)"
  have ok: "(\<lambda>f. fst (fs_match sc title artist score_cut f)) = ?q"
    by (intro ext) (rule fs_match_ok [OF assms])
  have "map (fs_hit_of sc title artist score_cut) (first_visits {} ?fs) =
        map (and_hit sc title artist) (first_visits {} ?fs)"
  proof (rule map_first_visits_cong)
    fix f assume "f \<in> set ?fs"
    then have "fst (fs_match sc title artist score_cut f)"
      by (simp add: fs_match_ok [OF assms])
    then show "fs_hit_of sc title artist score_cut f = and_hit sc title artist f"
      by (rule fs_match_hit [OF assms])
  qed
  moreover have "scan_files sc basepath title artist score_cut =
      py_sorted_rev score (map (fs_hit_of sc title artist score_cut) (first_visits {} ?fs))"
    by (simp only: scan_files_def fs_results_eq ok)
  ultimately have eq: "scan_files sc basepath title artist score_cut =
      py_sorted_rev score (map (and_hit sc title artist) (first_visits {} ?fs))"
    by (simp only:)
  have sound: "\<forall>h \<in> set (scan_files sc basepath title artist score_cut).
      \<exists>f \<in> set (rglob star_dot_star basepath). ?q f \<and> h = and_hit sc title artist f"
  proof
    fix h assume "h \<in> set (scan_files sc basepath title artist score_cut)"
    then obtain f where f: "f \<in> set (first_visits {} ?fs)" and h: "h = and_hit sc title artist f"
      by (auto simp: eq set_py_sorted_rev)
    from f have "f \<in> set ?fs" using set_first_visits by blast
    with h show "\<exists>f \<in> set (rglob star_dot_star basepath). ?q f \<and> h = and_hit sc title artist f"
      by auto
  qed
  have complete: "\<forall>f \<in> set (rglob star_dot_star basepath). ?q f \<longrightarrow>
      (\<exists>h \<in> set (scan_files sc basepath title artist score_cut). path h = resolved f)"
  proof (intro ballI impI)
    fix f assume "f \<in> set (rglob star_dot_star basepath)" and "?q f"
    then have "resolved f \<in> resolved ` set ?fs" by simp
    then have "resolved f \<in> resolved ` set (first_visits {} ?fs)"
      by (simp add: resolved_first_visits)
    then obtain g where g: "g \<in> set (first_visits {} ?fs)" and "resolved g = resolved f"
      by auto
    then have "path (and_hit sc title artist g) = resolved f"
      by (simp add: and_hit_def)
    moreover have "and_hit sc title artist g \<in> set (scan_files sc basepath title artist score_cut)"
      using g by (simp add: eq set_py_sorted_rev)
    ultimately show "\<exists>h \<in> set (scan_files sc basepath title artist score_cut). path h = resolved f"
      by blast
  qed
  from eq sound complete show ?thesis by blast
qed

theorem scan_files_title_and_artist_witness:
  "''track y'' \<noteq> [] \<and> ''artist x'' \<noteq> [] \<and>
   scan_files sc_eq artist_x_z ''track y'' ''artist x'' 90 =
     [\<lparr>score = 100, item = ''Track Y.flac'', path = ''/music/Artist X/Track Y.flac''\<rparr>]"
proof -
  have t: "''track y'' \<noteq> []" and a: "''artist x'' \<noteq> []" by simp_all
  have "py_sorted_rev score
          (map (and_hit sc_eq ''track y'' ''artist x'')
             (first_visits {}
                (filter (\<lambda>f. 90 \<le> title_score sc_eq ''track y'' f \<and>
                              90 \<le> artist_score sc_eq ''artist x'' f)
                        (rglob star_dot_star artist_x_z)))) =
        [\<lparr>score = 100, item = ''Track Y.flac'', path = ''/music/Artist X/Track Y.flac''\<rparr>]"
    by code_simp
  with scan_files_title_and_artist [where sc = sc_eq and basepath = artist_x_z and score_cut = 90, OF t a] t a show ?thesis
    by (simp only: simp_thms)
qed

section \<open>Title and artist in the database\<close>

text \<open>
  C2. For a query with a title and an artist, and a similarity function that is never
  negative, the database scanner gives each record the greatest similarity of the
  composite strings over the pairs of a query artist token and a database artist token,
  and keeps the record, labelled with its raw artist and raw title, exactly when that
  score reaches the threshold.
\<close>

theorem scan_rekordbox_title_and_artist:
  assumes "title \<noteq> []" and "artist \<noteq> []" and "\<And>a b. 0 \<le> sc a b"
  shows "scan_rekordbox sc contents title artist score_cut =
           py_sorted_rev score
             (map (composite_hit sc title artist)
                  (filter (\<lambda>c. score_cut \<le> composite_score sc title artist c) contents))"
proof -
  have "rb_score sc title artist = composite_score sc title artist"
    using rb_score_eq [OF assms] by (intro ext)
  moreover from this have "rb_hit sc title artist = composite_hit sc title artist"
    by (intro ext) (simp add: rb_hit_def composite_hit_def)
  ultimately show ?thesis
    by (simp add: scan_rekordbox_def rb_results_eq)
qed

theorem scan_rekordbox_title_and_artist_witness:
  "''strobe'' \<noteq> [] \<and> ''deadmau5'' \<noteq> [] \<and> (\<forall>a b. 0 \<le> sc_eq a b) \<and>
   scan_rekordbox sc_eq [strobe] ''strobe'' ''deadmau5'' 80 =
     [\<lparr>score = 100, item = ''Deadmau5 - Strobe (Original Mix)''\<rparr>]"
proof -
  have t: "''strobe'' \<noteq> []" and a: "''deadmau5'' \<noteq> []" by simp_all
  have nn: "\<And>a b. 0 \<le> sc_eq a b" by (simp add: sc_eq_def)
  have "py_sorted_rev score
          (map (composite_hit sc_eq ''strobe'' ''deadmau5'')
               (filter (\<lambda>c. 80 \<le> composite_score sc_eq ''strobe'' ''deadmau5'' c) [strobe])) =
        [\<lparr>score = 100, item = ''Deadmau5 - Strobe (Original Mix)''\<rparr>]"
    by code_simp
  with scan_rekordbox_title_and_artist [where contents = "[strobe]" and score_cut = 80, OF t a nn] t a nn show ?thesis
    by (simp only: simp_thms)
qed

section \<open>The candidates of the filesystem scanner\<close>






section \<open>Normalizing twice\<close>

subsection \<open>Steps that change nothing\<close>

lemma tails_subset: "suf \<in> set (tails t) \<Longrightarrow> set suf \<subseteq> set t"
  by (induction t) auto

lemma occurs_Cons: "occurs old (c # cs) = (str_startswith (c # cs) old \<or> occurs old cs)"
  by (simp add: occurs_def)

lemma str_replace_id: "\<not> occurs old t \<Longrightarrow> str_replace old new t = t"
  by (induction t) (simp_all add: occurs_Cons)

lemma occurs_set: "occurs old t \<Longrightarrow> set old \<subseteq> set t"
proof -
  assume "occurs old t"
  then obtain suf where suf: "suf \<in> set (tails t)" and "take (length old) suf = old"
    by (auto simp: occurs_def str_startswith_def)
  then have "set old \<subseteq> set suf"
    by (metis set_take_subset)
  with tails_subset [OF suf] show ?thesis by blast
qed

lemma re_sub_id: "(\<forall>suf \<in> set (tails t). match_here pat suf = None) \<Longrightarrow> re_sub pat t = t"
  by (induction t) simp_all

subsection \<open>The characters of the result\<close>

lemma set_str_replace: "set (str_replace old new t) \<subseteq> set new \<union> set t"
proof (induction old new t rule: str_replace.induct)
  case (1 old new)
  show ?case by simp
next
  case (2 old new c cs)
  show ?case
  proof (cases "old \<noteq> [] \<and> str_startswith (c # cs) old")
    case True
    have "set (drop (length old) (c # cs)) \<subseteq> set (c # cs)" by (rule set_drop_subset)
    with True 2(1) show ?thesis by (simp del: drop_Suc_Cons) blast
  next
    case False
    with 2(2) show ?thesis by auto
  qed
qed

lemma set_re_sub: "set (re_sub pat t) \<subseteq> set t"
proof (induction pat t rule: re_sub.induct)
  case (1 pat)
  show ?case by simp
next
  case (2 pat c cs)
  show ?case
  proof (cases "match_here pat (c # cs)")
    case None
    with 2 show ?thesis by auto
  next
    case (Some n)
    have "set (drop (n - 1) cs) \<subseteq> set cs" by (rule set_drop_subset)
    with Some 2 show ?thesis by auto
  qed
qed

lemma set_str_strip: "set (str_strip t) \<subseteq> set t"
proof -
  have "set (dropWhile is_space (rev (dropWhile is_space t))) \<subseteq> set (rev (dropWhile is_space t))"
    by (meson set_dropWhileD subsetI)
  also have "\<dots> \<subseteq> set t"
    using set_dropWhileD by fastforce
  finally show ?thesis
    by (simp add: str_strip_def str_lstrip_def str_rstrip_def)
qed

subsection \<open>Stripped strings\<close>

lemma stripped_str_strip: "stripped (str_strip t)"
proof -
  let ?u = "dropWhile is_space t"
  let ?v = "dropWhile is_space (rev ?u)"
  have st: "str_strip t = rev ?v"
    by (simp add: str_strip_def str_lstrip_def str_rstrip_def)
  show ?thesis
  proof (cases "?v = []")
    case True
    with st show ?thesis by (simp add: stripped_def)
  next
    case False
    then have l: "\<not> is_space (hd ?v)" by (rule hd_dropWhile)
    from False have "rev ?u \<noteq> []" by (metis dropWhile.simps(1))
    then have une: "?u \<noteq> []" by (simp only: rev_is_Nil_conv not_False_eq_True)
    then have hu: "\<not> is_space (hd ?u)" by (rule hd_dropWhile)
    obtain ws where ws: "rev ?u = ws @ ?v"
      by (metis takeWhile_dropWhile_id)
    then have "?u = rev ?v @ rev ws" by (metis rev_append rev_rev_ident)
    with False have "hd ?u = hd (rev ?v)" by (metis hd_append2 rev_is_Nil_conv)
    with hu l False st show ?thesis
      by (simp add: stripped_def last_rev)
  qed
qed

lemma str_strip_stripped: "stripped t \<Longrightarrow> str_strip t = t"
proof (cases "t = []")
  case True
  then show ?thesis by (simp add: str_strip_def str_lstrip_def str_rstrip_def)
next
  case False
  assume "stripped t"
  with False have h: "\<not> is_space (hd t)" and l: "\<not> is_space (last t)"
    by (simp_all add: stripped_def)
  from False h have "dropWhile is_space t = t" by (cases t) simp_all
  moreover from False l have "dropWhile is_space (rev t) = rev t"
    by (cases "rev t") (simp_all add: last_rev [symmetric] hd_rev)
  ultimately show ?thesis by (simp add: str_strip_def str_lstrip_def str_rstrip_def)
qed

subsection \<open>Lower case\<close>

lemma upper_keys:
  "(map_of (zip ascii_uppercase ascii_lowercase) c = None) = (\<not> is_upper c)"
proof -
  have "length ascii_uppercase = length ascii_lowercase"
    by (simp add: ascii_uppercase_def ascii_lowercase_def)
  then have "map fst (zip ascii_uppercase ascii_lowercase) = ascii_uppercase"
    by (rule map_fst_zip)
  then have "fst ` set (zip ascii_uppercase ascii_lowercase) = set ascii_uppercase"
    by (metis set_map)
  then show ?thesis
    by (simp add: map_of_eq_None_iff is_upper_def)
qed

lemma lower_char_not_upper: "\<not> is_upper (lower_char c)"
proof (cases "map_of (zip ascii_uppercase ascii_lowercase) c")
  case None
  then have "\<not> is_upper c" by (simp add: upper_keys)
  with None show ?thesis by (simp add: lower_char_def)
next
  case (Some d)
  then have "d \<in> set ascii_lowercase"
    by (meson map_of_SomeD set_zip_rightD)
  moreover have "set ascii_lowercase \<inter> set ascii_uppercase = {}"
    by (simp add: ascii_uppercase_def ascii_lowercase_def)
  ultimately have "\<not> is_upper d" by (auto simp: is_upper_def)
  with Some show ?thesis by (simp add: lower_char_def)
qed

lemma lower_char_id: "\<not> is_upper c \<Longrightarrow> lower_char c = c"
  by (simp add: lower_char_def upper_keys [symmetric])

lemma str_lower_id: "\<forall>c \<in> set t. \<not> is_upper c \<Longrightarrow> str_lower t = t"
  by (simp add: str_lower_def lower_char_id map_idI)
subsection \<open>A string without annotations is its own normal form\<close>

lemma mix_titles:
  "map str_title ORIGINAL_MIX_PATTERNS =
     [''(Original Mix)'', ''Original Mix'', ''(Orig Mix)'', ''Orig Mix'']"
  by code_simp

lemma mix_uppers:
  "map str_upper ORIGINAL_MIX_PATTERNS =
     [''(ORIGINAL MIX)'', ''ORIGINAL MIX'', ''(ORIG MIX)'', ''ORIG MIX'']"
  by code_simp

lemma is_upper_O: "is_upper CHR ''O''"
  by (simp add: is_upper_def ascii_uppercase_def)

lemma cased_mix_has_O:
  assumes "pat \<in> set ORIGINAL_MIX_PATTERNS"
  shows "CHR ''O'' \<in> set (str_title pat)" and "CHR ''O'' \<in> set (str_upper pat)"
proof -
  have "\<forall>p \<in> set (map str_title ORIGINAL_MIX_PATTERNS). CHR ''O'' \<in> set p"
    by (simp only: mix_titles) simp
  with assms show "CHR ''O'' \<in> set (str_title pat)" by simp
  have "\<forall>p \<in> set (map str_upper ORIGINAL_MIX_PATTERNS). CHR ''O'' \<in> set p"
    by (simp only: mix_uppers) simp
  with assms show "CHR ''O'' \<in> set (str_upper pat)" by simp
qed

lemma strip_mix_step_id:
  assumes "pat \<in> set ORIGINAL_MIX_PATTERNS" "\<not> occurs pat t" "\<forall>c \<in> set t. \<not> is_upper c"
  shows "strip_mix_step t pat = t"
proof -
  from assms(3) have "CHR ''O'' \<notin> set t" using is_upper_O by blast
  with cased_mix_has_O [OF assms(1)]
  have "\<not> occurs (str_title pat) t" and "\<not> occurs (str_upper pat) t"
    using occurs_set by blast+
  with assms(2) show ?thesis
    by (simp add: strip_mix_step_def str_replace_id)
qed

lemma foldl_id: "(\<And>p. p \<in> set ps \<Longrightarrow> f t p = t) \<Longrightarrow> foldl f t ps = t"
  by (induction ps) simp_all

lemma strip_mix_annotations_id:
  assumes "mix_free t" "\<forall>c \<in> set t. \<not> is_upper c" "stripped t"
  shows "strip_mix_annotations (Some t) = t"
proof -
  have "foldl strip_mix_step t ORIGINAL_MIX_PATTERNS = t"
    using assms(1,2) by (intro foldl_id strip_mix_step_id) (simp_all add: mix_free_def)
  with assms(3) show ?thesis
    by (simp add: strip_mix_annotations_def or_empty_def str_strip_stripped)
qed

lemma strip_features_id:
  assumes "feat_free t" "stripped t"
  shows "strip_features (Some t) = t"
proof -
  have "foldl (\<lambda>t pat. re_sub pat t) t FEAT_PATTERNS = t"
    using assms(1) by (intro foldl_id re_sub_id) (simp add: feat_free_def)
  with assms(2) show ?thesis
    by (simp add: strip_features_def or_empty_def str_strip_stripped)
qed

lemma set_foldl_subset:
  "(\<And>u p. set (f u p) \<subseteq> set u) \<Longrightarrow> set (foldl f t ps) \<subseteq> set t"
proof (induction ps arbitrary: t)
  case Nil
  show ?case by simp
next
  case (Cons p ps)
  have "set (foldl f (f t p) ps) \<subseteq> set (f t p)" by (rule Cons.IH) (rule Cons.prems)
  also have "\<dots> \<subseteq> set t" by (rule Cons.prems)
  finally show ?case by simp
qed

lemma set_strip_mix_annotations: "set (strip_mix_annotations s) \<subseteq> set (or_empty s)"
proof -
  have step: "set (strip_mix_step u p) \<subseteq> set u" for u p
    unfolding strip_mix_step_def
    using set_str_replace [of "str_upper p" "[]" "str_replace (str_title p) [] (str_replace p [] u)"]
      set_str_replace [of "str_title p" "[]" "str_replace p [] u"]
      set_str_replace [of p "[]" u]
    by auto
  have "set (foldl strip_mix_step (or_empty s) ORIGINAL_MIX_PATTERNS) \<subseteq> set (or_empty s)"
    by (rule set_foldl_subset) (rule step)
  with set_str_strip show ?thesis
    unfolding strip_mix_annotations_def by blast
qed

lemma set_strip_features: "set (strip_features s) \<subseteq> set (or_empty s)"
proof -
  have "set (foldl (\<lambda>t pat. re_sub pat t) (or_empty s) FEAT_PATTERNS) \<subseteq> set (or_empty s)"
    by (rule set_foldl_subset) (rule set_re_sub)
  with set_str_strip show ?thesis
    unfolding strip_features_def by blast
qed

lemma norm_no_upper: "\<forall>c \<in> set (norm s). \<not> is_upper c"
proof -
  have "set (norm s) \<subseteq> set (str_lower (or_empty s))"
    unfolding norm_def
    using set_str_strip set_strip_features [of "Some (strip_mix_annotations (Some (str_lower (or_empty s))))"]
      set_strip_mix_annotations [of "Some (str_lower (or_empty s))"]
    by (simp add: or_empty_def) blast
  then show ?thesis
    by (auto simp: str_lower_def lower_char_not_upper)
qed

lemma norm_stripped: "stripped (norm s)"
  by (simp add: norm_def stripped_str_strip)

lemma norm_fixed:
  assumes "annotation_free t" "\<forall>c \<in> set t. \<not> is_upper c" "stripped t"
  shows "norm (Some t) = t"
  using assms
  by (simp add: norm_def or_empty_def str_lower_id strip_mix_annotations_id strip_features_id
        str_strip_stripped annotation_free_def)

lemma norm_idempotent_if: "annotation_free (norm s) \<Longrightarrow> norm (Some (norm s)) = norm s"
  by (rule norm_fixed) (simp_all add: norm_no_upper norm_stripped)

subsection \<open>A step that removes something shortens the string\<close>

lemma length_str_replace: "length (str_replace old [] t) \<le> length t"
proof (induction old "[] :: string" t rule: str_replace.induct)
  case (1 old)
  show ?case by simp
next
  case (2 old c cs)
  show ?case
  proof (cases "old \<noteq> [] \<and> str_startswith (c # cs) old")
    case True
    with 2 have "length (str_replace old [] (drop (length old) (c # cs))) \<le>
        length (drop (length old) (c # cs))" by blast
    also have "\<dots> \<le> length (c # cs)" by simp
    finally show ?thesis using True by (simp del: drop_Suc_Cons length_drop)
  next
    case False
    with 2 show ?thesis by auto
  qed
qed

lemma length_str_replace_occurs:
  "occurs old t \<Longrightarrow> old \<noteq> [] \<Longrightarrow> length (str_replace old [] t) < length t"
proof (induction t)
  case Nil
  then show ?case by (simp add: occurs_def str_startswith_def)
next
  case (Cons c cs)
  show ?case
  proof (cases "str_startswith (c # cs) old")
    case True
    have "length (str_replace old [] (drop (length old) (c # cs))) \<le>
        length (drop (length old) (c # cs))" by (rule length_str_replace)
    also have "\<dots> < length (c # cs)" using Cons.prems(2) by simp
    finally show ?thesis using True Cons.prems(2) by (simp del: drop_Suc_Cons length_drop)
  next
    case False
    with Cons.prems have "occurs old cs" by (simp add: occurs_Cons)
    with Cons.IH Cons.prems(2) False show ?thesis by simp
  qed
qed

lemma str_replace_empty_old: "str_replace [] new t = t"
  by (induction t) simp_all

lemma str_replace_fixed:
  assumes "length (str_replace old [] t) = length t"
  shows "str_replace old [] t = t" and "old \<noteq> [] \<Longrightarrow> \<not> occurs old t"
proof -
  show "old \<noteq> [] \<Longrightarrow> \<not> occurs old t"
    using assms length_str_replace_occurs [of old t] by auto
  then show "str_replace old [] t = t"
    by (cases "old = []") (simp_all add: str_replace_empty_old str_replace_id)
qed

lemma length_re_sub: "length (re_sub pat t) \<le> length t"
proof (induction pat t rule: re_sub.induct)
  case (1 pat)
  show ?case by simp
next
  case (2 pat c cs)
  show ?case
  proof (cases "match_here pat (c # cs)")
    case None
    with 2 show ?thesis by auto
  next
    case (Some n)
    with 2 have "length (re_sub pat (drop (n - 1) cs)) \<le> length (drop (n - 1) cs)" by blast
    also have "\<dots> \<le> length (c # cs)" by simp
    finally show ?thesis using Some by simp
  qed
qed

lemma match_here_Nil: "match_here pat [] = None"
  by (cases pat) (simp_all add: str_startswith_def)

lemma length_re_sub_match:
  "\<exists>suf \<in> set (tails t). match_here pat suf \<noteq> None \<Longrightarrow> length (re_sub pat t) < length t"
proof (induction t)
  case Nil
  then show ?case by (simp add: match_here_Nil)
next
  case (Cons c cs)
  show ?case
  proof (cases "match_here pat (c # cs)")
    case (Some n)
    have "length (re_sub pat (drop (n - 1) cs)) \<le> length (drop (n - 1) cs)"
      by (rule length_re_sub)
    also have "\<dots> < length (c # cs)" by simp
    finally show ?thesis using Some by simp
  next
    case None
    with Cons.prems have "\<exists>suf \<in> set (tails cs). match_here pat suf \<noteq> None" by simp
    with Cons.IH None show ?thesis by simp
  qed
qed

lemma re_sub_fixed:
  assumes "length (re_sub pat t) = length t"
  shows "re_sub pat t = t" and "\<forall>suf \<in> set (tails t). match_here pat suf = None"
proof -
  show none: "\<forall>suf \<in> set (tails t). match_here pat suf = None"
  proof (rule ccontr)
    assume "\<not> (\<forall>suf \<in> set (tails t). match_here pat suf = None)"
    then have "\<exists>suf \<in> set (tails t). match_here pat suf \<noteq> None" by simp
    then have "length (re_sub pat t) < length t" by (rule length_re_sub_match)
    with assms show False by simp
  qed
  then show "re_sub pat t = t" by (rule re_sub_id)
qed

lemma length_str_strip: "length (str_strip t) \<le> length t"
proof -
  have "length (dropWhile is_space (rev (dropWhile is_space t))) \<le> length (rev (dropWhile is_space t))"
    by (rule length_dropWhile_le)
  also have "\<dots> \<le> length t" by (simp add: length_dropWhile_le)
  finally show ?thesis by (simp add: str_strip_def str_lstrip_def str_rstrip_def)
qed

lemma foldl_length:
  assumes "\<And>u p. length (f u p) \<le> length u"
  shows "length (foldl f t ps) \<le> length t"
proof (induction ps arbitrary: t)
  case Nil
  show ?case by simp
next
  case (Cons p ps)
  have "length (foldl f (f t p) ps) \<le> length (f t p)" by (rule Cons.IH)
  also have "\<dots> \<le> length t" by (rule assms)
  finally show ?case by simp
qed

lemma foldl_fixed:
  assumes le: "\<And>u p. length (f u p) \<le> length u"
    and fx: "\<And>u p. length (f u p) = length u \<Longrightarrow> f u p = u"
  shows "length (foldl f t ps) = length t \<Longrightarrow> p \<in> set ps \<Longrightarrow> f t p = t"
proof (induction ps)
  case Nil
  then show ?case by simp
next
  case (Cons q qs)
  have "length (foldl f (f t q) qs) \<le> length (f t q)" by (rule foldl_length) (rule le)
  with Cons.prems(1) le [of t q] have "length (f t q) = length t" by simp
  then have q: "f t q = t" by (rule fx)
  with Cons show ?case by auto
qed

lemma length_strip_mix_step: "length (strip_mix_step t p) \<le> length t"
proof -
  have "length (strip_mix_step t p) \<le> length (str_replace (str_title p) [] (str_replace p [] t))"
    unfolding strip_mix_step_def by (rule length_str_replace)
  also have "\<dots> \<le> length (str_replace p [] t)" by (rule length_str_replace)
  also have "\<dots> \<le> length t" by (rule length_str_replace)
  finally show ?thesis .
qed

lemma strip_mix_step_fixed:
  assumes "length (strip_mix_step t p) = length t"
  shows "strip_mix_step t p = t" and "p \<noteq> [] \<Longrightarrow> \<not> occurs p t"
proof -
  let ?a = "str_replace p [] t"
  let ?b = "str_replace (str_title p) [] ?a"
  have c: "strip_mix_step t p = str_replace (str_upper p) [] ?b"
    by (simp add: strip_mix_step_def)
  have "length (strip_mix_step t p) \<le> length ?b" unfolding c by (rule length_str_replace)
  moreover have ba: "length ?b \<le> length ?a" by (rule length_str_replace)
  moreover have at: "length ?a \<le> length t" by (rule length_str_replace)
  ultimately have la: "length ?a = length t" and lb: "length ?b = length ?a"
    and lc: "length (str_replace (str_upper p) [] ?b) = length ?b"
    using assms unfolding c by simp_all
  from la show "p \<noteq> [] \<Longrightarrow> \<not> occurs p t" by (rule str_replace_fixed(2))
  from la have "?a = t" by (rule str_replace_fixed(1))
  moreover from lb have "?b = ?a" by (rule str_replace_fixed(1))
  moreover from lc have "str_replace (str_upper p) [] ?b = ?b" by (rule str_replace_fixed(1))
  ultimately show "strip_mix_step t p = t" unfolding c by simp
qed

lemma norm_fixed_only_if:
  assumes fixed: "norm (Some t) = t" and nu: "\<forall>c \<in> set t. \<not> is_upper c" and st: "stripped t"
  shows "annotation_free t"
proof -
  let ?m = "foldl strip_mix_step t ORIGINAL_MIX_PATTERNS"
  let ?sm = "str_strip ?m"
  let ?f = "foldl (\<lambda>t pat. re_sub pat t) ?sm FEAT_PATTERNS"
  have n: "norm (Some t) = str_strip (str_strip ?f)"
    using nu by (simp add: norm_def or_empty_def str_lower_id strip_mix_annotations_def
          strip_features_def)
  have "length (norm (Some t)) \<le> length (str_strip ?f)"
    unfolding n by (rule length_str_strip)
  also have "\<dots> \<le> length ?f" by (rule length_str_strip)
  finally have l1: "length t \<le> length ?f" using fixed by simp
  have l2: "length ?f \<le> length ?sm" by (rule foldl_length) (rule length_re_sub)
  have l3: "length ?sm \<le> length ?m" by (rule length_str_strip)
  have l4: "length ?m \<le> length t" by (rule foldl_length) (rule length_strip_mix_step)
  from l1 l2 l3 l4 have lm: "length ?m = length t" by simp
  have steps: "strip_mix_step t p = t" if "p \<in> set ORIGINAL_MIX_PATTERNS" for p
  proof (rule foldl_fixed [where f = strip_mix_step and ps = ORIGINAL_MIX_PATTERNS])
    show "length (strip_mix_step u q) \<le> length u" for u q
      by (rule length_strip_mix_step)
    show "strip_mix_step u q = u" if "length (strip_mix_step u q) = length u" for u q
      using that by (rule strip_mix_step_fixed(1))
    show "length ?m = length t" by (rule lm)
    show "p \<in> set ORIGINAL_MIX_PATTERNS" by (rule that)
  qed
  have mix: "mix_free t"
    unfolding mix_free_def
  proof
    fix p assume p: "p \<in> set ORIGINAL_MIX_PATTERNS"
    then have "p \<noteq> []" by (auto simp: ORIGINAL_MIX_PATTERNS_def)
    moreover from steps [OF p] have "length (strip_mix_step t p) = length t" by simp
    ultimately show "\<not> occurs p t" using strip_mix_step_fixed(2) by blast
  qed
  have "?m = t" by (rule foldl_id) (rule steps)
  with st have sm: "?sm = t" by (simp add: str_strip_stripped)
  with l1 l2 have lf: "length (foldl (\<lambda>t pat. re_sub pat t) t FEAT_PATTERNS) = length t"
    by simp
  have "re_sub pat t = t" if "pat \<in> set FEAT_PATTERNS" for pat
  proof (rule foldl_fixed [where f = "\<lambda>t pat. re_sub pat t" and ps = FEAT_PATTERNS])
    show "length (re_sub q u) \<le> length u" for u q
      by (rule length_re_sub)
    show "re_sub q u = u" if "length (re_sub q u) = length u" for u q
      using that by (rule re_sub_fixed(1))
    show "length (foldl (\<lambda>t pat. re_sub pat t) t FEAT_PATTERNS) = length t" by (rule lf)
    show "pat \<in> set FEAT_PATTERNS" by (rule that)
  qed
  then have "feat_free t"
    unfolding feat_free_def using re_sub_fixed(2) by (metis order_refl)
  with mix show ?thesis by (simp add: annotation_free_def)
qed

text \<open>
  C3, amended. Normalizing a normal form again gives the same string exactly when the
  normal form has no annotation left: \<open>norm\<close> makes one pass, and a removal can leave
  a new mix phrase or feature span at the seam, which only a second pass removes.
\<close>

theorem norm_idempotent_iff:
  "(norm (Some (norm s)) = norm s) = annotation_free (norm s)"
proof
  assume "norm (Some (norm s)) = norm s"
  then show "annotation_free (norm s)"
    using norm_no_upper norm_stripped by (rule norm_fixed_only_if)
next
  assume "annotation_free (norm s)"
  then show "norm (Some (norm s)) = norm s"
    using norm_no_upper norm_stripped by (rule norm_fixed)
qed

text \<open>
  C3, as stated, fails: removing \<^verbatim>\<open>original mix\<close> from \<^verbatim>\<open>origoriginal mixinal mix\<close>
  leaves \<^verbatim>\<open>original mix\<close>, and removing \<^verbatim>\<open>(ft a)\<close> from \<^verbatim>\<open>(f(ft a)t b)\<close> leaves
  \<^verbatim>\<open>(ft b)\<close>; a second pass removes both.
\<close>

theorem norm_idempotent_counterexample:
  "norm (Some (norm (Some ''origoriginal mixinal mix''))) \<noteq> norm (Some ''origoriginal mixinal mix'') \<and>
   norm (Some (norm (Some ''(f(ft a)t b)''))) \<noteq> norm (Some ''(f(ft a)t b)'')"
  by code_simp

theorem norm_idempotent_iff_witness:
  "annotation_free (norm (Some ''Strobe (Original Mix)'')) \<and>
   norm (Some (norm (Some ''Strobe (Original Mix)''))) = ''strobe'' \<and>
   \<not> annotation_free (norm (Some ''(f(ft a)t b)''))"
proof -
  have a: "annotation_free (norm (Some ''Strobe (Original Mix)''))" by code_simp
  have n: "norm (Some ''Strobe (Original Mix)'') = ''strobe''" by code_simp
  have b: "norm (Some (norm (Some ''(f(ft a)t b)''))) \<noteq> norm (Some ''(f(ft a)t b)'')"
    by code_simp
  from a have "norm (Some (norm (Some ''Strobe (Original Mix)''))) = norm (Some ''Strobe (Original Mix)'')"
    by (simp only: norm_idempotent_iff)
  moreover from b have "\<not> annotation_free (norm (Some ''(f(ft a)t b)''))"
    by (simp only: norm_idempotent_iff not_False_eq_True)
  ultimately show ?thesis using a n by (simp only: simp_thms)
qed

end
